theory Spec2Isabelle
  imports Complex_Main "HOL-Library.Word"
begin

section \<open>The text editor of giuplus.go\<close>

text \<open>
  A shallow embedding of \<^verbatim>\<open>giuplus.go\<close>: the \<^verbatim>\<open>TextEditor\<close> struct with its
  constructors and accessors, the single-line callback built by \<^verbatim>\<open>Widget\<close>, and
  \<^verbatim>\<open>WrapInputtextMultiline\<close> with its three loops over the edit buffer.

  Go's \<^verbatim>\<open>byte\<close> is an 8-bit word, a \<^verbatim>\<open>[]byte\<close> and a \<^verbatim>\<open>string\<close> are lists of bytes,
  a \<^verbatim>\<open>rune\<close> and the \<^verbatim>\<open>int32\<close> return value are 32-bit words. The \<^verbatim>\<open>float32\<close> widths are
  only stored and compared with \<^verbatim>\<open>>\<close>, never computed with, so they are reals. Slice
  offsets and loop indices are natural numbers; selection offsets are integers.
\<close>

type_synonym byte = "8 word"
type_synonym rune = "32 word"
type_synonym int32 = "32 word"
type_synonym float32 = real

text \<open>The run-time panics the code can reach.\<close>

datatype panic = IndexOutOfRange | SliceBoundsOutOfRange | NilDereference

subsection \<open>The editor\<close>

text \<open>
  The field \<^verbatim>\<open>text\<close> is written \<open>text'\<close>. A callback is a value of an opaque type
  \<open>'cb\<close>; \<^verbatim>\<open>nil\<close> is \<open>None\<close>. Calling a callback is left to the Go run time, which
  the callers below take as the parameter \<open>call\<close>.
\<close>

record 'cb TextEditor =
  multiline :: bool
  wordwrap :: bool
  autoSelect :: bool
  width :: float32
  height :: float32
  text' :: "byte list"
  selStart :: int
  selEnd :: int
  onActivate :: "'cb option"

definition NewTextEditor :: "float32 \<Rightarrow> float32 \<Rightarrow> 'cb option \<Rightarrow> 'cb TextEditor" where
  "NewTextEditor w h cb =
     \<lparr>multiline = False, wordwrap = False, autoSelect = True, width = w, height = h,
      text' = [], selStart = 0, selEnd = 0, onActivate = cb\<rparr>"

definition NewTextEditorMultiline :: "float32 \<Rightarrow> float32 \<Rightarrow> 'cb TextEditor" where
  "NewTextEditorMultiline w h =
     \<lparr>multiline = True, wordwrap = True, autoSelect = True, width = w, height = h,
      text' = [], selStart = 0, selEnd = 0, onActivate = None\<rparr>"

definition SetOnActivate :: "'cb TextEditor \<Rightarrow> 'cb option \<Rightarrow> 'cb TextEditor" where
  "SetOnActivate e callback = e\<lparr>onActivate := callback\<rparr>"

definition SetText :: "'cb TextEditor \<Rightarrow> byte list \<Rightarrow> 'cb TextEditor" where
  "SetText e s = e\<lparr>text' := s\<rparr>"

definition Text :: "'cb TextEditor \<Rightarrow> byte list" where
  "Text e = text' e"

definition SetWordwrap :: "'cb TextEditor \<Rightarrow> bool \<Rightarrow> 'cb TextEditor" where
  "SetWordwrap e on = e\<lparr>wordwrap := on\<rparr>"

definition Wordrap :: "'cb TextEditor \<Rightarrow> bool" where
  "Wordrap e = wordwrap e"

subsection \<open>What the toolkit hands to a callback\<close>

datatype InputTextFlags =
    InputTextFlagsCallbackCompletion
  | InputTextFlagsCallbackHistory
  | InputTextFlagsCallbackAlways
  | InputTextFlagsCallbackCharFilter

text \<open>
  \<^verbatim>\<open>imgui.InputTextCallbackData\<close>: the event, the character about to be inserted, a view
  of the bytes of the edit buffer, the flag that \<^verbatim>\<open>MarkBufferModified\<close> raises, and the
  selection.
\<close>

record InputTextCallbackData =
  EventFlag :: InputTextFlags
  EventChar :: rune
  Buffer :: "byte list"
  BufDirty :: bool
  SelectionStart :: int
  SelectionEnd :: int

definition SetEventChar :: "InputTextCallbackData \<Rightarrow> rune \<Rightarrow> InputTextCallbackData" where
  "SetEventChar data c = data\<lparr>EventChar := c\<rparr>"

definition MarkBufferModified :: "InputTextCallbackData \<Rightarrow> InputTextCallbackData" where
  "MarkBufferModified data = data\<lparr>BufDirty := True\<rparr>"

text \<open>
  The widget description that \<^verbatim>\<open>Widget\<close> builds: the text it edits, its size and its
  flags. The closure it carries is \<open>WrapInputtextMultiline\<close> or \<open>InputTextCallback\<close>
  below, applied to the same editor.
\<close>

datatype Widget =
    InputTextMultilineWidget "byte list" float32 float32 "InputTextFlags list"
  | InputTextWidget "byte list" float32

definition Widget :: "'cb TextEditor \<Rightarrow> Widget" where
  "Widget e =
     (if multiline e
      then InputTextMultilineWidget (text' e) (- 1) 100
             [InputTextFlagsCallbackAlways, InputTextFlagsCallbackCharFilter]
      else InputTextWidget (text' e) (- 1))"

text \<open>
  The two queries of the toolkit that the wrapper uses: \<^verbatim>\<open>g.GetWidgetWidth\<close> and
  \<^verbatim>\<open>g.CalcTextSize\<close>.
\<close>

record Host =
  GetWidgetWidth :: "Widget \<Rightarrow> float32"
  CalcTextSize :: "byte list \<Rightarrow> float32 \<times> float32"

definition TextWidth :: "Host \<Rightarrow> byte list \<Rightarrow> float32" where
  "TextWidth host s = fst (CalcTextSize host s)"

subsection \<open>The single-line callback\<close>

text \<open>
  The closure of lines 64 to 72. It writes to the editor through a pointer, so the
  result holds the editor as the closure leaves it, next to the value it returns or the
  panic it ends in. The callback is called without a test for \<^verbatim>\<open>nil\<close>; calling a nil
  function value panics.
\<close>

definition InputTextCallback ::
  "('cb \<Rightarrow> 'cb TextEditor \<Rightarrow> 'cb TextEditor) \<Rightarrow> 'cb TextEditor \<Rightarrow> InputTextCallbackData
     \<Rightarrow> 'cb TextEditor \<times> (panic + int32)" where
  "InputTextCallback call e data =
     (case EventFlag data of
        InputTextFlagsCallbackAlways \<Rightarrow>
          (let e1 = e\<lparr>selStart := SelectionStart data\<rparr>;
               e2 = e1\<lparr>selEnd := SelectionEnd data\<rparr>
           in case onActivate e2 of
                None \<Rightarrow> (e2, Inl NilDereference)
              | Some cb \<Rightarrow> (call cb e2, Inr 0))
      | _ \<Rightarrow> (e, Inr 0))"

subsection \<open>Strings\<close>

text \<open>
  A string literal holds the UTF-8 encoding of its code points. The literals of the
  program, the pivot and \<^verbatim>\<open>"\r\n"\<close>, hold code points below \<^verbatim>\<open>U+0800\<close>, which take
  one or two bytes; \<open>utf8\<close> is the encoding of those and is not used above \<^verbatim>\<open>U+07FF\<close>.
\<close>

unbundle bit_operations_syntax

definition utf8 :: "rune \<Rightarrow> byte list" where
  "utf8 r =
     (if r < 0x80 then [ucast r]
      else [0xC0 OR ucast (drop_bit 6 r), 0x80 OR ucast (r AND 0x3F)])"

definition pivot :: "byte list" where
  "pivot = utf8 0x07FF"

definition crlf :: "byte list" where
  "crlf = utf8 0x0D @ utf8 0x0A"

text \<open>
  \<^verbatim>\<open>strings.ReplaceAll s old new\<close> for a pattern that is not empty: the occurrences of
  \<open>old\<close> are found from the left, without overlap, and each becomes \<open>new\<close>. (With an
  empty pattern Go inserts \<open>new\<close> around every rune; the program has no such call and
  the model then returns \<open>s\<close>.)
\<close>

function ReplaceAll :: "byte list \<Rightarrow> byte list \<Rightarrow> byte list \<Rightarrow> byte list" where
  "ReplaceAll [] old new = []"
| "ReplaceAll (c # s) old new =
     (if old \<noteq> [] \<and> take (length old) (c # s) = old
      then new @ ReplaceAll (drop (length old) (c # s)) old new
      else c # ReplaceAll s old new)"
  by pat_completeness auto
termination
  by (relation "measure (\<lambda>(s, old, new). length s)") auto

subsection \<open>The multi-line callback\<close>

text \<open>
  Step 0, lines 133 to 138. The loop \<^verbatim>\<open>for i := range buff { buff[i] = buff2[i] }\<close>
  reads \<^verbatim>\<open>buff2\<close> at every index of \<^verbatim>\<open>buff\<close> and panics when \<^verbatim>\<open>buff2\<close> is shorter.
  \<^verbatim>\<open>MarkBufferModified\<close> follows the loop and is not guarded.
\<close>

fun copy_loop :: "byte list \<Rightarrow> byte list \<Rightarrow> nat list \<Rightarrow> panic + byte list" where
  "copy_loop buff buff2 [] = Inr buff"
| "copy_loop buff buff2 (i # is) =
     (if i < length buff2 then copy_loop (buff[i := buff2 ! i]) buff2 is
      else Inl IndexOutOfRange)"

definition step0_expand :: "InputTextCallbackData \<Rightarrow> panic + InputTextCallbackData" where
  "step0_expand data =
     (let buff = Buffer data;
          buff2 = ReplaceAll buff pivot crlf
      in case copy_loop buff buff2 [0..<length buff] of
           Inl p \<Rightarrow> Inl p
         | Inr buff' \<Rightarrow> Inr (MarkBufferModified (data\<lparr>Buffer := buff'\<rparr>)))"

text \<open>
  Step 1, lines 141 to 153. \<open>c\<close> is the byte at \<open>i\<close> when the iteration starts; the
  branch that rewrites a linefeed leaves \<open>cr\<close> as it is.
\<close>

fun zap_loop :: "InputTextCallbackData \<Rightarrow> bool \<Rightarrow> nat list \<Rightarrow> InputTextCallbackData" where
  "zap_loop data cr [] = data"
| "zap_loop data cr (i # is) =
     (let c = Buffer data ! i
      in if c = 10 \<and> \<not> cr
         then zap_loop (MarkBufferModified (data\<lparr>Buffer := (Buffer data)[i := 32]\<rparr>)) cr is
         else zap_loop data (c = 13) is)"

definition step1_zap :: "InputTextCallbackData \<Rightarrow> InputTextCallbackData" where
  "step1_zap data = zap_loop data False [0..<length (Buffer data)]"

text \<open>
  Step 2, lines 155 to 169, for the width \<open>w\<close> and the measure \<open>tw\<close>. As in step 1,
  \<open>c\<close> is the byte at \<open>i\<close> when the iteration starts, and the fragment measured is
  read from the buffer as the earlier iterations left it. The slice
  \<^verbatim>\<open>buff[nl:i]\<close> panics when \<open>nl > i\<close>, the store \<^verbatim>\<open>buff[spc] = 10\<close> when \<open>spc\<close> is not
  an index of the buffer. The loop returns the buffer with the two cursors \<open>nl\<close> and
  \<open>spc\<close> as the last iteration left them.
\<close>

definition slice :: "byte list \<Rightarrow> nat \<Rightarrow> nat \<Rightarrow> byte list" where
  "slice buff lo hi = take (hi - lo) (drop lo buff)"

fun wrap_loop ::
  "(byte list \<Rightarrow> float32) \<Rightarrow> float32 \<Rightarrow> InputTextCallbackData \<Rightarrow> nat \<Rightarrow> nat \<Rightarrow> nat list
     \<Rightarrow> panic + (InputTextCallbackData \<times> nat \<times> nat)" where
  "wrap_loop tw w data nl spc [] = Inr (data, nl, spc)"
| "wrap_loop tw w data nl spc (i # is) =
     (let c = Buffer data ! i;
          nl1 = (if c = 10 then i else nl);
          spc1 = (if c = 32 then i else spc)
      in if i < nl1 then Inl SliceBoundsOutOfRange
         else if tw (slice (Buffer data) nl1 i) > w \<and> spc1 > 0
         then (if spc1 < length (Buffer data)
               then wrap_loop tw w
                      (MarkBufferModified (data\<lparr>Buffer := (Buffer data)[spc1 := 10]\<rparr>))
                      nl1 spc1 is
               else Inl IndexOutOfRange)
         else wrap_loop tw w data nl1 spc1 is)"

definition step2_wrap ::
  "(byte list \<Rightarrow> float32) \<Rightarrow> float32 \<Rightarrow> InputTextCallbackData \<Rightarrow> panic + InputTextCallbackData" where
  "step2_wrap tw w data =
     (case wrap_loop tw w data 0 0 [0..<length (Buffer data)] of
        Inl p \<Rightarrow> Inl p
      | Inr (data', nl, spc) \<Rightarrow> Inr data')"

text \<open>Steps 0 and 1 together are the pass that normalises the line breaks.\<close>

definition normalize_breaks :: "InputTextCallbackData \<Rightarrow> panic + InputTextCallbackData" where
  "normalize_breaks data =
     (case step0_expand data of
        Inl p \<Rightarrow> Inl p
      | Inr data0 \<Rightarrow> Inr (step1_zap data0))"

definition WrapInputtextMultiline ::
  "Host \<Rightarrow> 'cb TextEditor \<Rightarrow> InputTextCallbackData \<Rightarrow> panic + (InputTextCallbackData \<times> int32)" where
  "WrapInputtextMultiline host e data =
     (case EventFlag data of
        InputTextFlagsCallbackCharFilter \<Rightarrow>
          (let c = EventChar data
           in if c = 10 then Inr (SetEventChar data 0x07FF, 0) else Inr (data, 0))
      | InputTextFlagsCallbackAlways \<Rightarrow>
          (case normalize_breaks data of
             Inl p \<Rightarrow> Inl p
           | Inr data1 \<Rightarrow>
               (let w = GetWidgetWidth host (Widget e)
                in case step2_wrap (TextWidth host) w data1 of
                     Inl p \<Rightarrow> Inl p
                   | Inr data2 \<Rightarrow> Inr (data2, 0)))
      | _ \<Rightarrow> Inr (data, 0))"

subsection \<open>The events that reach a closure\<close>

text \<open>
  The toolkit calls the closure of an input widget only on the events whose flag the
  widget carries. \<^verbatim>\<open>Widget\<close> gives the multi-line widget two flags (line 56) and the
  single-line widget none (lines 63 and 64 call \<^verbatim>\<open>Size\<close> and \<^verbatim>\<open>Callback\<close>, not
  \<^verbatim>\<open>Flags\<close>). \<open>WidgetCallback\<close> is the closure of the widget of an editor, with the
  editor as the closure leaves it; \<open>HostEvent\<close> is what an event of the toolkit does to
  the editor and to the data of the event.
\<close>

definition WidgetFlags :: "Widget \<Rightarrow> InputTextFlags list" where
  "WidgetFlags wd =
     (case wd of
        InputTextMultilineWidget t w h flags \<Rightarrow> flags
      | InputTextWidget t w \<Rightarrow> [])"

definition WidgetCallback ::
  "('cb \<Rightarrow> 'cb TextEditor \<Rightarrow> 'cb TextEditor) \<Rightarrow> Host \<Rightarrow> 'cb TextEditor \<Rightarrow> InputTextCallbackData
     \<Rightarrow> 'cb TextEditor \<times> (panic + (InputTextCallbackData \<times> int32))" where
  "WidgetCallback call host e data =
     (if multiline e then (e, WrapInputtextMultiline host e data)
      else (case InputTextCallback call e data of
              (e', Inl p) \<Rightarrow> (e', Inl p)
            | (e', Inr r) \<Rightarrow> (e', Inr (data, r))))"

definition HostEvent ::
  "('cb \<Rightarrow> 'cb TextEditor \<Rightarrow> 'cb TextEditor) \<Rightarrow> Host \<Rightarrow> 'cb TextEditor \<Rightarrow> InputTextCallbackData
     \<Rightarrow> 'cb TextEditor \<times> (panic + (InputTextCallbackData \<times> int32))" where
  "HostEvent call host e data =
     (if EventFlag data \<in> set (WidgetFlags (Widget e)) then WidgetCallback call host e data
      else (e, Inr (data, 0)))"

subsection \<open>Reference functions and sample inputs\<close>

text \<open>
  Step 1 as a function on the list of bytes, and the property it establishes: every
  linefeed follows a carriage return (\<open>cr\<close> says whether the byte before the list is
  one).
\<close>

fun zap :: "bool \<Rightarrow> byte list \<Rightarrow> byte list" where
  "zap cr [] = []"
| "zap cr (c # s) = (if c = 10 \<and> \<not> cr then 32 # zap cr s else c # zap (c = 13) s)"

fun lf_guarded :: "bool \<Rightarrow> byte list \<Rightarrow> bool" where
  "lf_guarded cr [] = True"
| "lf_guarded cr (c # s) = ((c = 10 \<longrightarrow> cr) \<and> lf_guarded (c = 13) s)"

text \<open>Whether the two bytes of the pivot occur next to each other.\<close>

fun has_pivot :: "byte list \<Rightarrow> bool" where
  "has_pivot (a # b # s) = ((a = 0xDF \<and> b = 0xBF) \<or> has_pivot (b # s))"
| "has_pivot s = False"

text \<open>
  \<open>only_breaks x y\<close>: the buffer \<open>y\<close> is \<open>x\<close> with linefeeds in place of some of
  its spaces, none of them at index 0.
\<close>

definition only_breaks :: "byte list \<Rightarrow> byte list \<Rightarrow> bool" where
  "only_breaks x y \<longleftrightarrow>
     length y = length x \<and> (\<forall>j < length x. y ! j = x ! j \<or> (0 < j \<and> x ! j = 32 \<and> y ! j = 10))"

text \<open>
  Sample inputs. \<open>bytes\<close> turns an ASCII literal into bytes. \<open>monoWidth\<close> is a measure
  in the style of \<^verbatim>\<open>CalcTextSize\<close> for a font whose glyphs are all one unit wide: the
  width of the widest line of the fragment, a carriage return taking no room.
  \<open>sampleHost w\<close> reports the width \<open>w\<close> for every widget.
\<close>

definition bytes :: "string \<Rightarrow> byte list" where
  "bytes s = map of_char s"

fun monoWidth_aux :: "nat \<Rightarrow> nat \<Rightarrow> byte list \<Rightarrow> nat" where
  "monoWidth_aux line widest [] = max widest line"
| "monoWidth_aux line widest (c # s) =
     (if c = 10 then monoWidth_aux 0 (max widest line) s
      else if c = 13 then monoWidth_aux line widest s
      else monoWidth_aux (Suc line) widest s)"

definition monoWidth :: "byte list \<Rightarrow> float32" where
  "monoWidth s = real (monoWidth_aux 0 0 s)"

definition monoSize :: "byte list \<Rightarrow> float32 \<times> float32" where
  "monoSize s = (monoWidth s, 1)"

text \<open>
  A second sample measure, 7 units to the glyph, that counts one glyph more than the
  fragment has: the zero byte that ends the string handed to the toolkit.
\<close>

definition termWidth :: "byte list \<Rightarrow> float32" where
  "termWidth s = 7 * real (monoWidth_aux 0 0 (s @ [0]))"

definition termSize :: "byte list \<Rightarrow> float32 \<times> float32" where
  "termSize s = (termWidth s, 13)"

definition constWidth :: "float32 \<Rightarrow> Widget \<Rightarrow> float32" where
  "constWidth w wd = w"

definition sampleHost :: "float32 \<Rightarrow> Host" where
  "sampleHost w = \<lparr>GetWidgetWidth = constWidth w, CalcTextSize = monoSize\<rparr>"

definition termHost :: "float32 \<Rightarrow> Host" where
  "termHost w = \<lparr>GetWidgetWidth = constWidth w, CalcTextSize = termSize\<rparr>"

definition bufferEvent :: "byte list \<Rightarrow> InputTextCallbackData" where
  "bufferEvent b =
     \<lparr>EventFlag = InputTextFlagsCallbackAlways, EventChar = 0, Buffer = b, BufDirty = False,
      SelectionStart = 0, SelectionEnd = 0\<rparr>"

definition charEvent :: "rune \<Rightarrow> byte list \<Rightarrow> InputTextCallbackData" where
  "charEvent c b =
     \<lparr>EventFlag = InputTextFlagsCallbackCharFilter, EventChar = c, Buffer = b, BufDirty = False,
      SelectionStart = 0, SelectionEnd = 0\<rparr>"

definition selectionEvent :: "int \<Rightarrow> int \<Rightarrow> InputTextCallbackData" where
  "selectionEvent a b =
     \<lparr>EventFlag = InputTextFlagsCallbackAlways, EventChar = 0, Buffer = [], BufDirty = False,
      SelectionStart = a, SelectionEnd = b\<rparr>"

definition sampleEditor :: "unit TextEditor" where
  "sampleEditor = NewTextEditorMultiline 200 100"

definition callUnit :: "unit \<Rightarrow> unit TextEditor \<Rightarrow> unit TextEditor" where
  "callUnit cb e = e"

section \<open>The loops\<close>

subsection \<open>Replacing the pivot\<close>

lemma pivot_bytes: "pivot = [0xDF, 0xBF]"
  by (simp add: pivot_def utf8_def)

lemma crlf_bytes: "crlf = [13, 10]"
  by (simp add: crlf_def utf8_def)

lemma ReplaceAll_pivot_Cons2:
  "ReplaceAll (a # b # r) pivot crlf =
     (if a = 0xDF \<and> b = 0xBF then 13 # 10 # ReplaceAll r pivot crlf
      else a # ReplaceAll (b # r) pivot crlf)"
  by (simp add: pivot_bytes crlf_bytes)

lemma ReplaceAll_pivot_single: "ReplaceAll [a] pivot crlf = [a]"
  by (simp add: pivot_bytes crlf_bytes)

declare ReplaceAll.simps(2) [simp del]

lemma length_ReplaceAll_pivot: "length (ReplaceAll s pivot crlf) = length s"
proof (induction s rule: length_induct)
  case (1 s)
  show ?case
  proof (cases s)
    case Nil
    then show ?thesis by simp
  next
    case (Cons a t)
    note st = this
    show ?thesis
    proof (cases t)
      case Nil
      with st show ?thesis by (simp add: ReplaceAll_pivot_single)
    next
      case (Cons b r)
      with st 1 show ?thesis by (simp add: ReplaceAll_pivot_Cons2)
    qed
  qed
qed

lemma nth_ReplaceAll_pivot:
  "i < length s \<Longrightarrow>
   ReplaceAll s pivot crlf ! i =
     (if Suc i < length s \<and> s ! i = 0xDF \<and> s ! Suc i = 0xBF then 13
      else if 0 < i \<and> s ! (i - 1) = 0xDF \<and> s ! i = 0xBF then 10
      else s ! i)"
proof (induction s arbitrary: i rule: length_induct)
  case (1 s)
  show ?case
  proof (cases s)
    case Nil
    with 1 show ?thesis by simp
  next
    case (Cons a t)
    note st = this
    show ?thesis
    proof (cases t)
      case Nil
      with st 1 show ?thesis by (simp add: ReplaceAll_pivot_single)
    next
      case (Cons b r)
      note tr = this
      show ?thesis
      proof (cases "a = 0xDF \<and> b = 0xBF")
        case True
        have ih: "\<And>j. j < length r \<Longrightarrow> ReplaceAll r pivot crlf ! j =
           (if Suc j < length r \<and> r ! j = 0xDF \<and> r ! Suc j = 0xBF then 13
            else if 0 < j \<and> r ! (j - 1) = 0xDF \<and> r ! j = 0xBF then 10
            else r ! j)"
          using 1(1) st tr by simp
        show ?thesis
        proof (cases i)
          case 0
          with True st tr show ?thesis by (simp add: ReplaceAll_pivot_Cons2)
        next
          case (Suc i1)
          note i1 = this
          show ?thesis
          proof (cases i1)
            case 0
            with True st tr i1 show ?thesis by (simp add: ReplaceAll_pivot_Cons2)
          next
            case (Suc j)
            with i1 1(2) st tr have "j < length r" by simp
            from ih[OF this] True st tr i1 Suc show ?thesis
              by (cases j) (simp_all add: ReplaceAll_pivot_Cons2)
          qed
        qed
      next
        case False
        have ih: "\<And>j. j < length t \<Longrightarrow> ReplaceAll t pivot crlf ! j =
           (if Suc j < length t \<and> t ! j = 0xDF \<and> t ! Suc j = 0xBF then 13
            else if 0 < j \<and> t ! (j - 1) = 0xDF \<and> t ! j = 0xBF then 10
            else t ! j)"
          using 1(1) st by simp
        show ?thesis
        proof (cases i)
          case 0
          with False st tr show ?thesis by (auto simp add: ReplaceAll_pivot_Cons2)
        next
          case (Suc j)
          with 1(2) st have "j < length t" by simp
          from ih[OF this] False st tr Suc show ?thesis
            by (cases j) (auto simp add: ReplaceAll_pivot_Cons2)
        qed
      qed
    qed
  qed
qed

subsection \<open>The loops over the indices of the buffer\<close>

lemma copy_loop_upt:
  "length buff2 = length buff \<Longrightarrow> n = length buff \<Longrightarrow> k \<le> n \<Longrightarrow>
   copy_loop buff buff2 [k..<n] = Inr (take k buff @ drop k buff2)"
proof (induction "n - k" arbitrary: k buff)
  case 0
  then show ?case by simp
next
  case (Suc m)
  then have kn: "k < n" by simp
  let ?b = "buff[k := buff2 ! k]"
  have "copy_loop ?b buff2 [Suc k..<n] = Inr (take (Suc k) ?b @ drop (Suc k) buff2)"
    using Suc kn by (intro Suc.hyps(1)) simp_all
  moreover have "take (Suc k) ?b @ drop (Suc k) buff2 = take k buff @ drop k buff2"
    using kn Suc.prems
    by (simp add: take_Suc_conv_app_nth Cons_nth_drop_Suc)
  ultimately show ?case
    using kn Suc.prems by (simp add: upt_conv_Cons)
qed

lemma zap_loop_upt:
  "n = length (Buffer data) \<Longrightarrow> k \<le> n \<Longrightarrow>
   Buffer (zap_loop data cr [k..<n]) = take k (Buffer data) @ zap cr (drop k (Buffer data))"
proof (induction "n - k" arbitrary: k data cr)
  case 0
  then show ?case by simp
next
  case (Suc m)
  then have kn: "k < n" by simp
  let ?c = "Buffer data ! k"
  have dr: "drop k (Buffer data) = ?c # drop (Suc k) (Buffer data)"
    using kn Suc.prems by (simp add: Cons_nth_drop_Suc)
  show ?case
  proof (cases "?c = 10 \<and> \<not> cr")
    case True
    let ?d = "MarkBufferModified (data\<lparr>Buffer := (Buffer data)[k := 32]\<rparr>)"
    have "Buffer (zap_loop ?d cr [Suc k..<n])
            = take (Suc k) (Buffer ?d) @ zap cr (drop (Suc k) (Buffer ?d))"
      using Suc kn by (intro Suc.hyps(1)) (simp_all add: MarkBufferModified_def)
    then show ?thesis
      using kn Suc.prems True dr
      by (simp add: upt_conv_Cons MarkBufferModified_def take_Suc_conv_app_nth)
  next
    case False
    have "Buffer (zap_loop data (?c = 13) [Suc k..<n])
            = take (Suc k) (Buffer data) @ zap (?c = 13) (drop (Suc k) (Buffer data))"
      using Suc kn by (intro Suc.hyps(1)) simp_all
    then show ?thesis
      using kn Suc.prems False dr
      by (auto simp add: upt_conv_Cons take_Suc_conv_app_nth)
  qed
qed

lemma zap_loop_guarded:
  "n = length (Buffer data) \<Longrightarrow> k \<le> n \<Longrightarrow> lf_guarded cr (drop k (Buffer data)) \<Longrightarrow>
   zap_loop data cr [k..<n] = data"
proof (induction "n - k" arbitrary: k cr)
  case 0
  then show ?case by simp
next
  case (Suc m)
  then have kn: "k < n" by simp
  let ?c = "Buffer data ! k"
  have dr: "drop k (Buffer data) = ?c # drop (Suc k) (Buffer data)"
    using kn Suc.prems by (simp add: Cons_nth_drop_Suc)
  from Suc.prems(3) dr have g: "?c = 10 \<longrightarrow> cr" and
    rest: "lf_guarded (?c = 13) (drop (Suc k) (Buffer data))" by simp_all
  have "zap_loop data (?c = 13) [Suc k..<n] = data"
    using Suc kn rest by (intro Suc.hyps(1)) simp_all
  then show ?case
    using kn g by (auto simp add: upt_conv_Cons)
qed

lemma zap_other_fields:
  "EventFlag (zap_loop data cr is) = EventFlag data \<and>
   EventChar (zap_loop data cr is) = EventChar data \<and>
   SelectionStart (zap_loop data cr is) = SelectionStart data \<and>
   SelectionEnd (zap_loop data cr is) = SelectionEnd data"
  by (induction "is" arbitrary: data cr) (simp_all add: Let_def MarkBufferModified_def)

lemma length_zap: "length (zap cr s) = length s"
  by (induction s arbitrary: cr) simp_all

lemma lf_guarded_zap: "lf_guarded cr (zap cr s)"
  by (induction s arbitrary: cr) simp_all

lemma nth_zap:
  "i < length s \<Longrightarrow> zap cr s ! i = s ! i \<or> (s ! i = 10 \<and> zap cr s ! i = 32)"
  by (induction s arbitrary: cr i) (auto simp add: nth_Cons')

lemma lf_guarded_nth:
  "lf_guarded cr s \<longleftrightarrow>
     (\<forall>i < length s. s ! i = 10 \<longrightarrow> (if i = 0 then cr else s ! (i - 1) = 13))"
proof (induction s arbitrary: cr)
  case Nil
  then show ?case by simp
next
  case (Cons c s)
  show ?case
  proof
    assume l: "lf_guarded cr (c # s)"
    show "\<forall>i<length (c # s). (c # s) ! i = 10 \<longrightarrow> (if i = 0 then cr else (c # s) ! (i - 1) = 13)"
    proof (intro allI impI)
      fix i assume i: "i < length (c # s)" "(c # s) ! i = 10"
      show "if i = 0 then cr else (c # s) ! (i - 1) = 13"
      proof (cases i)
        case 0
        with l i show ?thesis by simp
      next
        case (Suc j)
        from l have "lf_guarded (c = 13) s" by simp
        with Cons.IH[of "c = 13"]
        have "\<forall>j<length s. s ! j = 10 \<longrightarrow> (if j = 0 then c = 13 else s ! (j - 1) = 13)"
          by simp
        from this[rule_format, of j] i Suc
        have "if j = 0 then c = 13 else s ! (j - 1) = 13" by simp
        with Suc show ?thesis by (cases j) simp_all
      qed
    qed
  next
    assume r: "\<forall>i<length (c # s). (c # s) ! i = 10 \<longrightarrow> (if i = 0 then cr else (c # s) ! (i - 1) = 13)"
    from r[rule_format, of 0] have h: "c = 10 \<longrightarrow> cr" by simp
    have "\<forall>j<length s. s ! j = 10 \<longrightarrow> (if j = 0 then c = 13 else s ! (j - 1) = 13)"
    proof (intro allI impI)
      fix j assume j: "j < length s" "s ! j = 10"
      with r[rule_format, of "Suc j"] show "if j = 0 then c = 13 else s ! (j - 1) = 13"
        by (cases j) simp_all
    qed
    with Cons.IH[of "c = 13"] have "lf_guarded (c = 13) s" by simp
    with h show "lf_guarded cr (c # s)" by simp
  qed
qed

subsection \<open>Steps 0 and 1\<close>

lemma has_pivot_nth:
  "has_pivot s \<longleftrightarrow> (\<exists>i. Suc i < length s \<and> s ! i = 0xDF \<and> s ! Suc i = 0xBF)"
proof (induction s rule: has_pivot.induct)
  case (1 a b s)
  have "(\<exists>i. Suc i < length (a # b # s) \<and> (a # b # s) ! i = 0xDF \<and> (a # b # s) ! Suc i = 0xBF)
        \<longleftrightarrow> (a = 0xDF \<and> b = 0xBF) \<or>
            (\<exists>j. Suc j < length (b # s) \<and> (b # s) ! j = 0xDF \<and> (b # s) ! Suc j = 0xBF)"
    (is "?L \<longleftrightarrow> ?R")
  proof
    assume ?L
    then obtain i where i: "Suc i < length (a # b # s)" "(a # b # s) ! i = 0xDF"
      "(a # b # s) ! Suc i = 0xBF" by blast
    show ?R
    proof (cases i)
      case 0
      with i show ?thesis by simp
    next
      case (Suc j)
      with i have "Suc j < length (b # s) \<and> (b # s) ! j = 0xDF \<and> (b # s) ! Suc j = 0xBF"
        by simp
      then show ?thesis by blast
    qed
  next
    assume ?R
    then show ?L
    proof
      assume "a = 0xDF \<and> b = 0xBF"
      then have "Suc 0 < length (a # b # s) \<and> (a # b # s) ! 0 = 0xDF \<and> (a # b # s) ! Suc 0 = 0xBF"
        by simp
      then show ?L by blast
    next
      assume "\<exists>j. Suc j < length (b # s) \<and> (b # s) ! j = 0xDF \<and> (b # s) ! Suc j = 0xBF"
      then obtain j where "Suc j < length (b # s) \<and> (b # s) ! j = 0xDF \<and> (b # s) ! Suc j = 0xBF"
        by blast
      then have "Suc (Suc j) < length (a # b # s) \<and> (a # b # s) ! Suc j = 0xDF
                 \<and> (a # b # s) ! Suc (Suc j) = 0xBF" by simp
      then show ?L by blast
    qed
  qed
  with 1 show ?case by simp
qed simp_all

lemma lf_guarded_False_nth:
  "lf_guarded False s \<longleftrightarrow> (\<forall>i < length s. s ! i = 10 \<longrightarrow> 0 < i \<and> s ! (i - 1) = 13)"
proof -
  have "(if i = 0 then False else s ! (i - 1) = 13) = (0 < i \<and> s ! (i - 1) = 13)" for i
    by simp
  then show ?thesis by (simp only: lf_guarded_nth)
qed

lemma step0_expand_eq:
  "step0_expand data =
     Inr (data\<lparr>Buffer := ReplaceAll (Buffer data) pivot crlf, BufDirty := True\<rparr>)"
  by (simp add: step0_expand_def Let_def copy_loop_upt length_ReplaceAll_pivot
        MarkBufferModified_def)

lemma no_pivot_ReplaceAll:
  "Suc i < length s \<Longrightarrow>
   \<not> (ReplaceAll s pivot crlf ! i = 0xDF \<and> ReplaceAll s pivot crlf ! Suc i = 0xBF)"
  by (auto simp add: nth_ReplaceAll_pivot split: if_splits)

lemma ReplaceAll_no_pivot:
  assumes "\<not> has_pivot s"
  shows "ReplaceAll s pivot crlf = s"
proof (rule nth_equalityI)
  show "length (ReplaceAll s pivot crlf) = length s" by (rule length_ReplaceAll_pivot)
next
  fix i assume "i < length (ReplaceAll s pivot crlf)"
  then have i: "i < length s" by (simp add: length_ReplaceAll_pivot)
  from assms have np: "\<And>j. Suc j < length s \<Longrightarrow> \<not> (s ! j = 0xDF \<and> s ! Suc j = 0xBF)"
    by (auto simp add: has_pivot_nth)
  show "ReplaceAll s pivot crlf ! i = s ! i"
  proof (cases i)
    case 0
    with i np[of 0] show ?thesis by (auto simp add: nth_ReplaceAll_pivot)
  next
    case (Suc j)
    with i np[of i] np[of j] show ?thesis by (auto simp add: nth_ReplaceAll_pivot)
  qed
qed

lemma zap_loop_keeps_dirty: "BufDirty data \<Longrightarrow> BufDirty (zap_loop data cr is)"
  by (induction "is" arbitrary: data cr) (simp_all add: Let_def MarkBufferModified_def)

lemma step1_zap_Buffer: "Buffer (step1_zap data) = zap False (Buffer data)"
  using zap_loop_upt [of "length (Buffer data)" data 0 False] by (simp add: step1_zap_def)

lemma normalize_breaks_eq:
  "normalize_breaks data =
     Inr (step1_zap (data\<lparr>Buffer := ReplaceAll (Buffer data) pivot crlf, BufDirty := True\<rparr>))"
  by (simp add: normalize_breaks_def step0_expand_eq)

lemma normalize_breaks_zap:
  "normalize_breaks data =
     Inr (data\<lparr>Buffer := zap False (ReplaceAll (Buffer data) pivot crlf), BufDirty := True\<rparr>)"
proof -
  let ?d0 = "data\<lparr>Buffer := ReplaceAll (Buffer data) pivot crlf, BufDirty := True\<rparr>"
  let ?is = "[0..<length (Buffer ?d0)]"
  have "step1_zap ?d0 = ?d0\<lparr>Buffer := zap False (Buffer ?d0)\<rparr>"
  proof (rule InputTextCallbackData.equality)
    show "Buffer (step1_zap ?d0) = Buffer (?d0\<lparr>Buffer := zap False (Buffer ?d0)\<rparr>)"
      by (simp add: step1_zap_Buffer)
    show "BufDirty (step1_zap ?d0) = BufDirty (?d0\<lparr>Buffer := zap False (Buffer ?d0)\<rparr>)"
      using zap_loop_keeps_dirty [of ?d0 False ?is] by (simp add: step1_zap_def)
  qed (simp_all add: step1_zap_def zap_other_fields)
  then show ?thesis by (simp add: normalize_breaks_eq)
qed

subsection \<open>Step 2\<close>

text \<open>
  The slice and the store of step 2 stay within the buffer, so the callback returns on
  every event, with the value 0.
\<close>

lemma wrap_loop_no_space:
  "32 \<notin> set (Buffer data) \<Longrightarrow> n = length (Buffer data) \<Longrightarrow> k \<le> n \<Longrightarrow> nl \<le> k \<Longrightarrow>
   \<exists>nl'. wrap_loop tw w data nl 0 [k..<n] = Inr (data, nl', 0)"
proof (induction "n - k" arbitrary: k nl)
  case 0
  then show ?case by simp
next
  case (Suc m)
  then have kn: "k < n" by simp
  let ?c = "Buffer data ! k"
  let ?nl = "if ?c = 10 then k else nl"
  from kn Suc.prems have "?c \<in> set (Buffer data)" by simp
  with Suc.prems(1) have c: "?c \<noteq> 32" by metis
  have "\<exists>nl'. wrap_loop tw w data ?nl 0 [Suc k..<n] = Inr (data, nl', 0)"
    using Suc kn by (intro Suc.hyps(1)) simp_all
  then show ?case
    using kn c Suc.prems(4) by (simp add: upt_conv_Cons Let_def)
qed

lemma wrap_loop_returns:
  "n = length (Buffer data) \<Longrightarrow> k \<le> n \<Longrightarrow> nl \<le> k \<Longrightarrow> spc \<le> k \<Longrightarrow>
   \<exists>data' nl' spc'. wrap_loop tw w data nl spc [k..<n] = Inr (data', nl', spc')"
proof (induction "n - k" arbitrary: k nl spc data)
  case 0
  then show ?case by simp
next
  case (Suc m)
  then have kn: "k < n" by simp
  let ?c = "Buffer data ! k"
  let ?nl = "if ?c = 10 then k else nl"
  let ?spc = "if ?c = 32 then k else spc"
  let ?d = "MarkBufferModified (data\<lparr>Buffer := (Buffer data)[?spc := 10]\<rparr>)"
  have nl: "?nl \<le> k" and spc: "?spc \<le> k" using Suc.prems by simp_all
  have a: "\<exists>data' nl' spc'. wrap_loop tw w data ?nl ?spc [Suc k..<n] = Inr (data', nl', spc')"
    using Suc kn nl spc by (intro Suc.hyps(1)) simp_all
  have b: "\<exists>data' nl' spc'. wrap_loop tw w ?d ?nl ?spc [Suc k..<n] = Inr (data', nl', spc')"
    using Suc kn nl spc by (intro Suc.hyps(1)) (simp_all add: MarkBufferModified_def)
  have lt: "?spc < length (Buffer data)" using spc kn Suc.prems(1) by simp
  have ge: "\<not> k < ?nl" using nl by simp
  show ?case
    using a b lt ge kn by (simp add: upt_conv_Cons Let_def)
qed

lemma step2_wrap_returns: "\<exists>data'. step2_wrap tw w data = Inr data'"
proof -
  obtain data' nl' spc' where
    "wrap_loop tw w data 0 0 [0..<length (Buffer data)] = Inr (data', nl', spc')"
    using wrap_loop_returns [of "length (Buffer data)" data 0 0 0 tw w] by auto
  then show ?thesis by (simp add: step2_wrap_def)
qed

lemma WrapInputtextMultiline_returns:
  "\<exists>data'. WrapInputtextMultiline host e data = Inr (data', 0)"
proof (cases "EventFlag data")
  case InputTextFlagsCallbackAlways
  obtain d1 where d1: "normalize_breaks data = Inr d1"
    by (simp add: normalize_breaks_eq)
  obtain d2 where "step2_wrap (TextWidth host) (GetWidgetWidth host (Widget e)) d1 = Inr d2"
    using step2_wrap_returns by blast
  with d1 InputTextFlagsCallbackAlways show ?thesis
    by (simp add: WrapInputtextMultiline_def)
qed (simp_all add: WrapInputtextMultiline_def)

subsection \<open>The sample hosts\<close>

lemma sampleHost_measure: "TextWidth (sampleHost w) = monoWidth"
  by (rule ext) (simp add: TextWidth_def sampleHost_def monoSize_def)

lemma sampleHost_width: "GetWidgetWidth (sampleHost w) wd = w"
  by (simp add: sampleHost_def constWidth_def)

lemma termHost_measure: "TextWidth (termHost w) = termWidth"
  by (rule ext) (simp add: TextWidth_def termHost_def termSize_def)

lemma termHost_width: "GetWidgetWidth (termHost w) wd = w"
  by (simp add: termHost_def constWidth_def)

lemma Always_pass:
  "WrapInputtextMultiline host e (bufferEvent b) =
     (case normalize_breaks (bufferEvent b) of
        Inl p \<Rightarrow> Inl p
      | Inr data1 \<Rightarrow>
          (case step2_wrap (TextWidth host) (GetWidgetWidth host (Widget e)) data1 of
             Inl p \<Rightarrow> Inl p
           | Inr data2 \<Rightarrow> Inr (data2, 0)))"
  unfolding WrapInputtextMultiline_def Let_def bufferEvent_def by simp

lemma Always_pass_dirty:
  "WrapInputtextMultiline host e ((bufferEvent b)\<lparr>BufDirty := True\<rparr>) =
     (case normalize_breaks ((bufferEvent b)\<lparr>BufDirty := True\<rparr>) of
        Inl p \<Rightarrow> Inl p
      | Inr data1 \<Rightarrow>
          (case step2_wrap (TextWidth host) (GetWidgetWidth host (Widget e)) data1 of
             Inl p \<Rightarrow> Inl p
           | Inr data2 \<Rightarrow> Inr (data2, 0)))"
  unfolding WrapInputtextMultiline_def Let_def bufferEvent_def by simp

subsection \<open>The pass on its own output\<close>

text \<open>
  Step 2 only puts linefeeds in place of spaces, and step 1 of the next pass turns
  them back into spaces, unless one of them follows a carriage return. So a buffer in
  which no space follows a carriage return is brought by one pass to a fixed point of the
  pass: the second pass undoes the breaks of the first and makes them again.
\<close>

lemma only_breaks_refl: "only_breaks x x"
  by (simp add: only_breaks_def)

lemma only_breaks_nth:
  "only_breaks x y \<Longrightarrow> j < length x \<Longrightarrow> y ! j = x ! j \<or> (0 < j \<and> x ! j = 32 \<and> y ! j = 10)"
  by (simp add: only_breaks_def)

lemma only_breaks_update:
  "only_breaks x y \<Longrightarrow> 0 < p \<Longrightarrow> p < length x \<Longrightarrow> x ! p = 32 \<Longrightarrow> only_breaks x (y[p := 10])"
  by (auto simp add: only_breaks_def nth_list_update)

lemma only_breaks_space:
  "only_breaks x y \<Longrightarrow> i < length x \<Longrightarrow> y ! i = 32 \<Longrightarrow> x ! i = 32"
  by (auto simp add: only_breaks_def)

lemma wrap_loop_only_breaks:
  "wrap_loop tw w data nl spc is = Inr (data', nl', spc') \<Longrightarrow>
   only_breaks x (Buffer data) \<Longrightarrow> spc = 0 \<or> (spc < length x \<and> x ! spc = 32) \<Longrightarrow>
   \<forall>i \<in> set is. i < length x \<Longrightarrow>
   only_breaks x (Buffer data')"
proof (induction "is" arbitrary: data nl spc)
  case Nil
  then show ?case by simp
next
  case (Cons i "is")
  let ?c = "Buffer data ! i"
  let ?nl = "if ?c = 10 then i else nl"
  let ?spc = "if ?c = 32 then i else spc"
  let ?d = "MarkBufferModified (data\<lparr>Buffer := (Buffer data)[?spc := 10]\<rparr>)"
  from Cons.prems(4) have i: "i < length x" and rest: "\<forall>j \<in> set is. j < length x" by simp_all
  have spc: "?spc = 0 \<or> (?spc < length x \<and> x ! ?spc = 32)"
    using Cons.prems(3) i only_breaks_space [OF Cons.prems(2) i] by auto
  show ?case
  proof (cases "w < tw (slice (Buffer data) ?nl i) \<and> 0 < ?spc")
    case True
    with Cons.prems(1) have run: "wrap_loop tw w ?d ?nl ?spc is = Inr (data', nl', spc')"
      by (simp add: Let_def split: if_splits)
    from True spc have "only_breaks x (Buffer ?d)"
      using only_breaks_update [OF Cons.prems(2), of ?spc] by (simp add: MarkBufferModified_def)
    from Cons.IH [OF run this spc rest] show ?thesis .
  next
    case False
    with Cons.prems(1) have run: "wrap_loop tw w data ?nl ?spc is = Inr (data', nl', spc')"
      by (simp add: Let_def split: if_splits)
    from Cons.IH [OF run Cons.prems(2) spc rest] show ?thesis .
  qed
qed

lemma wrap_loop_fields:
  "wrap_loop tw w data nl spc is = Inr (data', nl', spc') \<Longrightarrow> BufDirty data \<Longrightarrow>
   data' = data\<lparr>Buffer := Buffer data'\<rparr>"
proof (induction "is" arbitrary: data nl spc)
  case Nil
  then show ?case by simp
next
  case (Cons i "is")
  let ?c = "Buffer data ! i"
  let ?nl = "if ?c = 10 then i else nl"
  let ?spc = "if ?c = 32 then i else spc"
  let ?d = "MarkBufferModified (data\<lparr>Buffer := (Buffer data)[?spc := 10]\<rparr>)"
  show ?case
  proof (cases "w < tw (slice (Buffer data) ?nl i) \<and> 0 < ?spc")
    case True
    with Cons.prems(1) have run: "wrap_loop tw w ?d ?nl ?spc is = Inr (data', nl', spc')"
      by (simp add: Let_def split: if_splits)
    have "BufDirty ?d" by (simp add: MarkBufferModified_def)
    from Cons.IH [OF run this] have "data' = ?d\<lparr>Buffer := Buffer data'\<rparr>" .
    also have "\<dots> = data\<lparr>Buffer := Buffer data'\<rparr>"
      using Cons.prems(2) by (simp add: MarkBufferModified_def)
    finally show ?thesis .
  next
    case False
    with Cons.prems(1) have run: "wrap_loop tw w data ?nl ?spc is = Inr (data', nl', spc')"
      by (simp add: Let_def split: if_splits)
    from Cons.IH [OF run Cons.prems(2)] show ?thesis .
  qed
qed

lemma step2_wrap_only_breaks:
  assumes "step2_wrap tw w data = Inr data'" and "BufDirty data"
  shows "data' = data\<lparr>Buffer := Buffer data'\<rparr> \<and> only_breaks (Buffer data) (Buffer data')"
proof -
  from assms(1) obtain nl' spc' where
    run: "wrap_loop tw w data 0 0 [0..<length (Buffer data)] = Inr (data', nl', spc')"
    by (auto simp add: step2_wrap_def split: sum.splits)
  have "only_breaks (Buffer data) (Buffer data')"
    using wrap_loop_only_breaks [OF run only_breaks_refl] by simp
  with wrap_loop_fields [OF run assms(2)] show ?thesis by simp
qed

lemma zap_Cons: "zap cr (c # s) = (if c = 10 \<and> \<not> cr then 32 else c) # zap (c = 13) s"
  by simp

lemma nth_zap_eq:
  "i < length s \<Longrightarrow>
   zap cr s ! i =
     (if s ! i = 10 \<and> \<not> (if i = 0 then cr else s ! (i - 1) = 13) then 32 else s ! i)"
proof (induction s arbitrary: cr i)
  case Nil
  then show ?case by simp
next
  case (Cons c s)
  show ?case
  proof (cases i)
    case 0
    then show ?thesis by (simp only: zap_Cons) simp
  next
    case (Suc j)
    with Cons.prems have j: "j < length s" by simp
    from Cons.IH [OF j, of "c = 13"] Suc show ?thesis
      by (simp only: zap_Cons) (cases j; simp)
  qed
qed

lemma zap_only_breaks:
  assumes ob: "only_breaks x y"
    and lf: "\<forall>i < length x. x ! i = 10 \<longrightarrow> 0 < i \<and> x ! (i - 1) = 13"
    and cs: "\<forall>i. Suc i < length x \<longrightarrow> \<not> (x ! i = 13 \<and> x ! Suc i = 32)"
  shows "zap False y = x"
proof (rule nth_equalityI)
  show "length (zap False y) = length x" using ob by (simp add: length_zap only_breaks_def)
next
  fix i assume "i < length (zap False y)"
  then have iy: "i < length y" and ix: "i < length x"
    using ob by (simp_all add: length_zap only_breaks_def)
  from ob ix have alt: "y ! i = x ! i \<or> (0 < i \<and> x ! i = 32 \<and> y ! i = 10)"
    by (simp add: only_breaks_def)
  have prev: "y ! (i - 1) = 13 \<longleftrightarrow> x ! (i - 1) = 13" if "0 < i"
  proof -
    from that ix have "i - 1 < length x" by simp
    with ob have "y ! (i - 1) = x ! (i - 1) \<or> (x ! (i - 1) = 32 \<and> y ! (i - 1) = 10)"
      by (auto simp add: only_breaks_def)
    then show ?thesis by auto
  qed
  from alt show "zap False y ! i = x ! i"
  proof
    assume same: "y ! i = x ! i"
    show ?thesis
    proof (cases "x ! i = 10")
      case True
      with lf ix have "0 < i" "x ! (i - 1) = 13" by auto
      with prev same True iy show ?thesis by (simp add: nth_zap_eq)
    next
      case False
      with same iy show ?thesis by (simp add: nth_zap_eq)
    qed
  next
    assume br: "0 < i \<and> x ! i = 32 \<and> y ! i = 10"
    then obtain j where j: "i = Suc j" by (cases i) auto
    with cs ix br have "x ! j \<noteq> 13" by auto
    with prev br j have "y ! (i - 1) \<noteq> 13" by simp
    with br iy show ?thesis by (simp add: nth_zap_eq)
  qed
qed

lemma only_breaks_no_pivot:
  "only_breaks x y \<Longrightarrow> \<not> has_pivot x \<Longrightarrow> \<not> has_pivot y"
proof
  assume ob: "only_breaks x y" and nx: "\<not> has_pivot x" and "has_pivot y"
  then obtain i where i: "Suc i < length y" "y ! i = 0xDF" "y ! Suc i = 0xBF"
    by (auto simp add: has_pivot_nth)
  with ob have l: "Suc i < length x" "i < length x" by (simp_all add: only_breaks_def)
  from only_breaks_nth [OF ob l(2)] i(2) have a: "x ! i = 0xDF" by auto
  from only_breaks_nth [OF ob l(1)] i(3) have b: "x ! Suc i = 0xBF" by auto
  from l(1) a b have "has_pivot x" by (auto simp add: has_pivot_nth)
  with nx show False ..
qed

lemma normalized_no_cr_space:
  assumes cs: "\<forall>i. Suc i < length b \<longrightarrow> \<not> (b ! i = 13 \<and> b ! Suc i = 32)"
    and i: "Suc i < length b"
  shows "\<not> (zap False (ReplaceAll b pivot crlf) ! i = 13
            \<and> zap False (ReplaceAll b pivot crlf) ! Suc i = 32)"
proof
  let ?r = "ReplaceAll b pivot crlf"
  assume h: "zap False ?r ! i = 13 \<and> zap False ?r ! Suc i = 32"
  from i have ir: "Suc i < length ?r" "i < length ?r" by (simp_all add: length_ReplaceAll_pivot)
  from h ir(2) have r1: "?r ! i = 13" by (auto simp add: nth_zap_eq split: if_splits)
  with h ir(1) have r2: "?r ! Suc i = 32" by (auto simp add: nth_zap_eq split: if_splits)
  from i have ib: "i < length b" by simp
  from r2 i have b2: "b ! Suc i = 32" by (auto simp add: nth_ReplaceAll_pivot split: if_splits)
  with r1 ib i have "b ! i = 13" by (auto simp add: nth_ReplaceAll_pivot split: if_splits)
  with cs i b2 show False by blast
qed

lemma normalized_buffer:
  "\<not> has_pivot (zap False (ReplaceAll b pivot crlf))
   \<and> (\<forall>i < length (zap False (ReplaceAll b pivot crlf)).
         zap False (ReplaceAll b pivot crlf) ! i = 10 \<longrightarrow>
           0 < i \<and> zap False (ReplaceAll b pivot crlf) ! (i - 1) = 13)"
proof
  let ?r = "ReplaceAll b pivot crlf"
  show "\<not> has_pivot (zap False ?r)"
  proof
    assume "has_pivot (zap False ?r)"
    then obtain i where i: "Suc i < length (zap False ?r)" "zap False ?r ! i = 0xDF"
      "zap False ?r ! Suc i = 0xBF" by (auto simp add: has_pivot_nth)
    then have l: "Suc i < length ?r" "i < length ?r" by (simp_all add: length_zap)
    from nth_zap [OF l(2), of False] i(2) have a: "?r ! i = 0xDF" by auto
    from nth_zap [OF l(1), of False] i(3) have b: "?r ! Suc i = 0xBF" by auto
    from l(1) have "Suc i < length b" by (simp add: length_ReplaceAll_pivot)
    from no_pivot_ReplaceAll [OF this] a b show False by simp
  qed
  show "\<forall>i < length (zap False ?r). zap False ?r ! i = 10 \<longrightarrow> 0 < i \<and> zap False ?r ! (i - 1) = 13"
    using lf_guarded_zap [of False ?r] by (simp only: lf_guarded_False_nth)
qed

lemma pass_twice_fixed_point:
  assumes ev: "EventFlag data = InputTextFlagsCallbackAlways"
    and cs: "\<forall>i. Suc i < length (Buffer data) \<longrightarrow>
               \<not> (Buffer data ! i = 13 \<and> Buffer data ! Suc i = 32)"
  shows "\<exists>data1. WrapInputtextMultiline host e data = Inr (data1, 0)
           \<and> WrapInputtextMultiline host e data1 = Inr (data1, 0)"
proof -
  let ?x = "zap False (ReplaceAll (Buffer data) pivot crlf)"
  let ?dx = "data\<lparr>Buffer := ?x, BufDirty := True\<rparr>"
  let ?tw = "TextWidth host"
  let ?w = "GetWidgetWidth host (Widget e)"
  have n0: "normalize_breaks data = Inr ?dx" by (rule normalize_breaks_zap)
  obtain d1 where w1: "step2_wrap ?tw ?w ?dx = Inr d1"
    using step2_wrap_returns by blast
  have dirty: "BufDirty ?dx" by simp
  from step2_wrap_only_breaks [OF w1 dirty]
  have d1: "d1 = ?dx\<lparr>Buffer := Buffer d1\<rparr>" and ob: "only_breaks ?x (Buffer d1)" by simp_all
  have first: "WrapInputtextMultiline host e data = Inr (d1, 0)"
    using ev n0 w1 by (simp add: WrapInputtextMultiline_def)
  have len: "length ?x = length (Buffer data)"
    by (simp add: length_zap length_ReplaceAll_pivot)
  have np: "\<not> has_pivot (Buffer d1)"
    using only_breaks_no_pivot [OF ob] normalized_buffer [of "Buffer data"] by blast
  have csx: "\<forall>i. Suc i < length ?x \<longrightarrow> \<not> (?x ! i = 13 \<and> ?x ! Suc i = 32)"
    using normalized_no_cr_space [OF cs] len by simp
  have z: "zap False (Buffer d1) = ?x"
    using zap_only_breaks [OF ob _ csx] normalized_buffer [of "Buffer data"] by blast
  have "normalize_breaks d1 = Inr (d1\<lparr>Buffer := ?x, BufDirty := True\<rparr>)"
    by (simp add: normalize_breaks_zap ReplaceAll_no_pivot [OF np] z)
  also have "d1\<lparr>Buffer := ?x, BufDirty := True\<rparr> = ?dx"
    by (subst d1) simp
  finally have n1: "normalize_breaks d1 = Inr ?dx" .
  have ev1: "EventFlag d1 = InputTextFlagsCallbackAlways"
    by (subst d1) (simp add: ev)
  have "WrapInputtextMultiline host e d1 = Inr (d1, 0)"
    using ev1 n1 w1 by (simp add: WrapInputtextMultiline_def)
  with first show ?thesis by blast
qed

section \<open>The pass that normalises the line breaks\<close>

text \<open>
  C1. For every buffer, steps 0 and 1 return without a panic, and in the buffer they
  leave the two bytes of the pivot \<^verbatim>\<open>U+07FF\<close> never occur next to each other and every
  linefeed comes right after a carriage return.
\<close>

theorem normalize_breaks_postcondition:
  "\<exists>data'. normalize_breaks data = Inr data'
     \<and> length (Buffer data') = length (Buffer data)
     \<and> (\<forall>i. Suc i < length (Buffer data') \<longrightarrow>
            \<not> (Buffer data' ! i = 0xDF \<and> Buffer data' ! Suc i = 0xBF))
     \<and> (\<forall>i < length (Buffer data'). Buffer data' ! i = 10 \<longrightarrow>
            0 < i \<and> Buffer data' ! (i - 1) = 13)"
proof -
  let ?r = "ReplaceAll (Buffer data) pivot crlf"
  let ?d0 = "data\<lparr>Buffer := ?r, BufDirty := True\<rparr>"
  let ?b = "zap False ?r"
  have run: "normalize_breaks data = Inr (step1_zap ?d0)"
    by (rule normalize_breaks_eq)
  have buf: "Buffer (step1_zap ?d0) = ?b"
    by (simp add: step1_zap_Buffer)
  have len: "length ?b = length (Buffer data)"
    by (simp add: length_zap length_ReplaceAll_pivot)
  have piv: "\<not> (?b ! i = 0xDF \<and> ?b ! Suc i = 0xBF)" if "Suc i < length ?b" for i
  proof
    assume h: "?b ! i = 0xDF \<and> ?b ! Suc i = 0xBF"
    from that have i: "Suc i < length ?r" by (simp add: length_zap)
    then have "i < length ?r" by simp
    from nth_zap[OF this, of False] h have a: "?r ! i = 0xDF" by auto
    from nth_zap[OF i, of False] h have b: "?r ! Suc i = 0xBF" by auto
    from i have "Suc i < length (Buffer data)" by (simp add: length_ReplaceAll_pivot)
    from no_pivot_ReplaceAll[OF this] a b show False by simp
  qed
  have lf: "\<forall>i < length ?b. ?b ! i = 10 \<longrightarrow> 0 < i \<and> ?b ! (i - 1) = 13"
    using lf_guarded_zap[of False ?r] by (simp only: lf_guarded_False_nth)
  from run buf len piv lf show ?thesis by simp
qed

theorem normalize_breaks_postcondition_witness:
  "normalize_breaks (bufferEvent [0x61, 0xDF, 0xBF, 0x62, 10, 0x63])
     = Inr ((bufferEvent [0x61, 13, 10, 0x62, 32, 0x63])\<lparr>BufDirty := True\<rparr>)"
  using normalize_breaks_postcondition [of "bufferEvent [0x61, 0xDF, 0xBF, 0x62, 10, 0x63]"]
  by (simp add: normalize_breaks_def step0_expand_eq step1_zap_def bufferEvent_def
        ReplaceAll_pivot_Cons2 ReplaceAll_pivot_single upt_rec MarkBufferModified_def)

text \<open>
  C7. Step 0 rewrites the buffer in place: the two bytes \<^verbatim>\<open>0xDF 0xBF\<close> of every pivot
  become carriage return and linefeed, every other byte stays where it is, and the
  buffer keeps its length in bytes. The buffer is marked as modified after the step,
  whether or not a pivot was found.
\<close>

theorem pivot_expansion_in_place:
  "\<exists>buff'. step0_expand data = Inr (data\<lparr>Buffer := buff', BufDirty := True\<rparr>)
     \<and> length buff' = length (Buffer data)
     \<and> (\<forall>i < length (Buffer data).
           buff' ! i =
             (if Suc i < length (Buffer data) \<and> Buffer data ! i = 0xDF \<and> Buffer data ! Suc i = 0xBF
              then 13
              else if 0 < i \<and> Buffer data ! (i - 1) = 0xDF \<and> Buffer data ! i = 0xBF
              then 10
              else Buffer data ! i))"
  using step0_expand_eq [of data] length_ReplaceAll_pivot [of "Buffer data"]
    nth_ReplaceAll_pivot [of _ "Buffer data"]
  by blast

theorem pivot_expansion_in_place_witness:
  "step0_expand (bufferEvent [0x61, 0xDF, 0xBF, 0x62, 0xDF, 0xBF])
     = Inr ((bufferEvent [0x61, 13, 10, 0x62, 13, 10])\<lparr>BufDirty := True\<rparr>)"
  using pivot_expansion_in_place [of "bufferEvent [0x61, 0xDF, 0xBF, 0x62, 0xDF, 0xBF]"]
  by (simp add: step0_expand_eq bufferEvent_def ReplaceAll_pivot_Cons2 ReplaceAll_pivot_single)

text \<open>
  A pivot is replaced, and the buffer is as long as before, with the byte that follows
  the pivot at the offset it had: the step neither changes the length nor shifts.
\<close>

theorem pivot_expansion_length_counterexample:
  "step0_expand (bufferEvent [0x61, 0xDF, 0xBF, 0x62])
     = Inr ((bufferEvent [0x61, 13, 10, 0x62])\<lparr>BufDirty := True\<rparr>)
   \<and> length [0x61, 13, 10, 0x62 :: byte] = length [0x61, 0xDF, 0xBF, 0x62 :: byte]
   \<and> [0x61, 13, 10, 0x62 :: byte] ! 3 = [0x61, 0xDF, 0xBF, 0x62 :: byte] ! 3"
  by (simp add: step0_expand_eq bufferEvent_def ReplaceAll_pivot_Cons2 ReplaceAll_pivot_single)

text \<open>
  C5. On a buffer that is already normalised (no pivot, every linefeed right after a
  carriage return) the pass leaves every byte as it is, and step 1 raises no
  modification flag; step 0 raises it, as it does on every buffer, and that is the only
  change to the data.
\<close>

theorem normalize_breaks_on_normalized:
  assumes "\<forall>i. Suc i < length (Buffer data) \<longrightarrow>
             \<not> (Buffer data ! i = 0xDF \<and> Buffer data ! Suc i = 0xBF)"
    and "\<forall>i < length (Buffer data). Buffer data ! i = 10 \<longrightarrow> 0 < i \<and> Buffer data ! (i - 1) = 13"
  shows "step0_expand data = Inr (MarkBufferModified data)
     \<and> step1_zap data = data
     \<and> normalize_breaks data = Inr (MarkBufferModified data)"
proof -
  from assms(1) have np: "\<not> has_pivot (Buffer data)" by (auto simp add: has_pivot_nth)
  from assms(2) have g: "lf_guarded False (Buffer data)" by (simp only: lf_guarded_False_nth)
  have s0: "step0_expand data = Inr (MarkBufferModified data)"
    by (simp add: step0_expand_eq ReplaceAll_no_pivot [OF np] MarkBufferModified_def)
  have s1: "step1_zap d = d" if "Buffer d = Buffer data" for d
    using zap_loop_guarded [of "length (Buffer d)" d 0 False] g that
    by (simp add: step1_zap_def)
  have "step1_zap (MarkBufferModified data) = MarkBufferModified data"
    by (rule s1) (simp add: MarkBufferModified_def)
  with s0 s1 show ?thesis by (simp add: normalize_breaks_def)
qed

theorem normalize_breaks_on_normalized_witness:
  "normalize_breaks (bufferEvent [0x61, 13, 10, 0x62])
     = Inr ((bufferEvent [0x61, 13, 10, 0x62])\<lparr>BufDirty := True\<rparr>)
   \<and> step1_zap (bufferEvent [0x61, 13, 10, 0x62]) = bufferEvent [0x61, 13, 10, 0x62]"
proof -
  let ?d = "bufferEvent [0x61, 13, 10, 0x62]"
  have "\<not> has_pivot (Buffer ?d)" by (simp add: bufferEvent_def)
  then have a: "\<forall>i. Suc i < length (Buffer ?d) \<longrightarrow>
                  \<not> (Buffer ?d ! i = 0xDF \<and> Buffer ?d ! Suc i = 0xBF)"
    by (simp only: has_pivot_nth) blast
  have "lf_guarded False (Buffer ?d)" by (simp add: bufferEvent_def)
  then have b: "\<forall>i < length (Buffer ?d). Buffer ?d ! i = 10 \<longrightarrow> 0 < i \<and> Buffer ?d ! (i - 1) = 13"
    by (simp only: lf_guarded_False_nth)
  from normalize_breaks_on_normalized [OF a b] show ?thesis
    by (simp add: MarkBufferModified_def)
qed

text \<open>
  A normalised buffer whose modification flag is down comes back with the flag up.
\<close>

theorem normalize_breaks_marks_normalized_counterexample:
  "\<not> has_pivot [0x61, 13, 10, 0x62]
   \<and> lf_guarded False [0x61, 13, 10, 0x62]
   \<and> \<not> BufDirty (bufferEvent [0x61, 13, 10, 0x62])
   \<and> normalize_breaks (bufferEvent [0x61, 13, 10, 0x62])
       = Inr ((bufferEvent [0x61, 13, 10, 0x62])\<lparr>BufDirty := True\<rparr>)"
  by (simp add: normalize_breaks_eq step1_zap_def bufferEvent_def
        ReplaceAll_pivot_Cons2 ReplaceAll_pivot_single upt_rec)

section \<open>The wrapper\<close>

text \<open>
  C8. A buffer without a space byte passes through step 2 unchanged and unmarked,
  whatever the measure and the width are, so also when the text is wider than the
  widget.
\<close>

theorem wrap_without_space_unchanged:
  "32 \<notin> set (Buffer data) \<Longrightarrow> step2_wrap tw w data = Inr data"
proof -
  assume "32 \<notin> set (Buffer data)"
  then obtain nl' where
    "wrap_loop tw w data 0 0 [0..<length (Buffer data)] = Inr (data, nl', 0)"
    using wrap_loop_no_space [of data "length (Buffer data)" 0 0 tw w] by auto
  then show ?thesis by (simp add: step2_wrap_def)
qed

theorem wrap_without_space_unchanged_witness:
  "32 \<notin> set (bytes ''xxxxxxxxxxxxxxxx'')
   \<and> 5 < monoWidth (bytes ''xxxxxxxxxxxxxxxx'')
   \<and> step2_wrap monoWidth 5 (bufferEvent (bytes ''xxxxxxxxxxxxxxxx''))
       = Inr (bufferEvent (bytes ''xxxxxxxxxxxxxxxx''))"
proof -
  have h: "32 \<notin> set (Buffer (bufferEvent (bytes ''xxxxxxxxxxxxxxxx'')))"
    by (simp add: bufferEvent_def bytes_def)
  from wrap_without_space_unchanged [OF h, of monoWidth 5] h show ?thesis
    by (simp add: bufferEvent_def bytes_def monoWidth_def)
qed

text \<open>
  The examples below measure with \<open>monoWidth\<close>. First the two plain cases: a line that
  fits is left alone, and a line that is too wide is broken at its last space.
\<close>

lemma scenario_A:
  "step2_wrap monoWidth 7 (bufferEvent (bytes ''abc def'')) = Inr (bufferEvent (bytes ''abc def''))"
  by (simp add: step2_wrap_def bufferEvent_def bytes_def upt_rec slice_def monoWidth_def
        MarkBufferModified_def)

lemma wrap_scenario_B_narrower:
  "step2_wrap monoWidth 7 (bufferEvent (bytes ''aaaa bbbb''))
     = Inr ((bufferEvent (bytes ''aaaa'' @ [10] @ bytes ''bbbb''))\<lparr>BufDirty := True\<rparr>)"
  by (simp add: step2_wrap_def bufferEvent_def bytes_def upt_rec slice_def monoWidth_def
        MarkBufferModified_def)

text \<open>
  C6. At index \<open>i\<close> step 2 measures \<^verbatim>\<open>buff[nl:i]\<close>, the text before the byte at
  \<open>i\<close>; the widest fragment it measures of \<^verbatim>\<open>"aaaa bbbb"\<close> is \<^verbatim>\<open>"aaaa bbb"\<close>. For
  every measure and width, when the width measured for \<^verbatim>\<open>"aaaa bbb"\<close> exceeds the width
  available, the space between the two words is overwritten with a linefeed and the
  buffer is marked.
\<close>

theorem wrap_breaks_on_measured_prefix:
  "w < tw (bytes ''aaaa bbb'') \<Longrightarrow>
   step2_wrap tw w (bufferEvent (bytes ''aaaa bbbb''))
     = Inr ((bufferEvent (bytes ''aaaa'' @ [10] @ bytes ''bbbb''))\<lparr>BufDirty := True\<rparr>)"
  by (simp add: step2_wrap_def bufferEvent_def bytes_def upt_rec slice_def
        MarkBufferModified_def)

theorem wrap_breaks_on_measured_prefix_witness:
  "56 < termWidth (bytes ''aaaa bbb'')
   \<and> step2_wrap termWidth 56 (bufferEvent (bytes ''aaaa bbbb''))
     = Inr ((bufferEvent (bytes ''aaaa'' @ [10] @ bytes ''bbbb''))\<lparr>BufDirty := True\<rparr>)"
proof -
  have h: "56 < termWidth (bytes ''aaaa bbb'')"
    by (simp add: termWidth_def bytes_def)
  from wrap_breaks_on_measured_prefix [of 56 termWidth] h show ?thesis by simp
qed

text \<open>
  The width measured for the whole buffer plays no part: when the five fragments that
  are measured once the space is seen all fit, the buffer is returned as it came.
\<close>

lemma wrap_keeps_when_prefixes_fit:
  "tw (bytes ''aaaa'') \<le> w \<Longrightarrow> tw (bytes ''aaaa '') \<le> w \<Longrightarrow> tw (bytes ''aaaa b'') \<le> w \<Longrightarrow>
   tw (bytes ''aaaa bb'') \<le> w \<Longrightarrow> tw (bytes ''aaaa bbb'') \<le> w \<Longrightarrow>
   step2_wrap tw w (bufferEvent (bytes ''aaaa bbbb'')) = Inr (bufferEvent (bytes ''aaaa bbbb''))"
  by (simp add: step2_wrap_def bufferEvent_def bytes_def upt_rec slice_def
        MarkBufferModified_def not_less [symmetric])

text \<open>
  With the measure \<open>termWidth\<close> and 63 units available, \<^verbatim>\<open>"aaaa "\<close> measures 42 and
  fits, \<^verbatim>\<open>"aaaa bbbb"\<close> measures 70 and does not, and the callback leaves the space in
  place: \<^verbatim>\<open>"aaaa bbb"\<close> measures 63.
\<close>

theorem wrap_whole_buffer_counterexample:
  "TextWidth (termHost 63) (bytes ''aaaa '') \<le> GetWidgetWidth (termHost 63) (Widget sampleEditor)
   \<and> GetWidgetWidth (termHost 63) (Widget sampleEditor)
       < TextWidth (termHost 63) (bytes ''aaaa bbbb'')
   \<and> WrapInputtextMultiline (termHost 63) sampleEditor (bufferEvent (bytes ''aaaa bbbb''))
       = Inr ((bufferEvent (bytes ''aaaa bbbb''))\<lparr>BufDirty := True\<rparr>, 0)"
proof -
  have n1: "normalize_breaks (bufferEvent (bytes ''aaaa bbbb''))
      = Inr ((bufferEvent (bytes ''aaaa bbbb''))\<lparr>BufDirty := True\<rparr>)"
    by (simp add: normalize_breaks_zap bufferEvent_def bytes_def
          ReplaceAll_pivot_Cons2 ReplaceAll_pivot_single)
  have w1: "step2_wrap termWidth 63 ((bufferEvent (bytes ''aaaa bbbb''))\<lparr>BufDirty := True\<rparr>)
      = Inr ((bufferEvent (bytes ''aaaa bbbb''))\<lparr>BufDirty := True\<rparr>)"
    by (simp add: step2_wrap_def bufferEvent_def bytes_def upt_rec slice_def termWidth_def
          MarkBufferModified_def)
  have m: "termWidth (bytes ''aaaa '') \<le> 63 \<and> 63 < termWidth (bytes ''aaaa bbbb'')"
    by (simp add: termWidth_def bytes_def)
  show ?thesis
    using m by (simp only: Always_pass termHost_measure termHost_width n1 w1 sum.case simp_thms)
qed

text \<open>The same with the measure \<open>monoWidth\<close> and 8 units available.\<close>

lemma wrap_leaves_last_byte_unmeasured:
  "monoWidth (bytes ''aaaa '') \<le> 8
   \<and> 8 < monoWidth (bytes ''aaaa bbbb'')
   \<and> step2_wrap monoWidth 8 (bufferEvent (bytes ''aaaa bbbb''))
       = Inr (bufferEvent (bytes ''aaaa bbbb''))"
  by (simp add: step2_wrap_def bufferEvent_def bytes_def upt_rec slice_def monoWidth_def
        MarkBufferModified_def)

text \<open>
  C3. The cursor \<open>spc\<close> is never reset and \<open>nl\<close> only moves when the scan reads a
  linefeed. The first buffer is \<^verbatim>\<open>"a b"\<close>, a pivot and \<^verbatim>\<open>"cccccc"\<close>, as typed with
  the return key. The callback turns the pivot into a manual break; the second line is
  too wide for the width 4 and has no space, and the break goes to the space of the first
  line, which fitted. In the second run the scan stops right after the iteration that
  broke \<^verbatim>\<open>"aaaa bbbb cccc"\<close> at index 4: the cursors are still 0 and 4, not 5.
\<close>

theorem wrap_keeps_stale_cursors:
  "WrapInputtextMultiline (sampleHost 4) sampleEditor
       (bufferEvent (bytes ''a b'' @ [0xDF, 0xBF] @ bytes ''cccccc''))
     = Inr ((bufferEvent (bytes ''a'' @ [10] @ bytes ''b'' @ [13, 10] @ bytes ''cccccc''))
              \<lparr>BufDirty := True\<rparr>, 0)
   \<and> wrap_loop monoWidth 5 (bufferEvent (bytes ''aaaa bbbb cccc'')) 0 0 [0..<7]
     = Inr ((bufferEvent (bytes ''aaaa'' @ [10] @ bytes ''bbbb cccc''))\<lparr>BufDirty := True\<rparr>,
            0, 4)"
proof -
  have "TextWidth (sampleHost 4) = monoWidth"
    by (rule ext) (simp add: TextWidth_def sampleHost_def monoSize_def)
  moreover have "GetWidgetWidth (sampleHost 4) (Widget sampleEditor) = 4"
    by (simp add: sampleHost_def constWidth_def)
  moreover have "normalize_breaks (bufferEvent (bytes ''a b'' @ [0xDF, 0xBF] @ bytes ''cccccc''))
      = Inr ((bufferEvent (bytes ''a b'' @ [13, 10] @ bytes ''cccccc''))\<lparr>BufDirty := True\<rparr>)"
    by (simp add: normalize_breaks_zap bufferEvent_def bytes_def
          ReplaceAll_pivot_Cons2 ReplaceAll_pivot_single)
  moreover have "step2_wrap monoWidth 4
        ((bufferEvent (bytes ''a b'' @ [13, 10] @ bytes ''cccccc''))\<lparr>BufDirty := True\<rparr>)
      = Inr ((bufferEvent (bytes ''a'' @ [10] @ bytes ''b'' @ [13, 10] @ bytes ''cccccc''))
              \<lparr>BufDirty := True\<rparr>)"
    by (simp add: step2_wrap_def bufferEvent_def bytes_def upt_rec slice_def monoWidth_def
          MarkBufferModified_def)
  moreover have "wrap_loop monoWidth 5 (bufferEvent (bytes ''aaaa bbbb cccc'')) 0 0 [0..<7]
     = Inr ((bufferEvent (bytes ''aaaa'' @ [10] @ bytes ''bbbb cccc''))\<lparr>BufDirty := True\<rparr>,
            0, 4)"
    by (simp add: bufferEvent_def bytes_def upt_rec slice_def monoWidth_def
          MarkBufferModified_def)
  ultimately show ?thesis
    by (simp add: WrapInputtextMultiline_def bufferEvent_def)
qed

text \<open>
  Since \<open>nl\<close> stays before a line that is too wide and cannot be broken, every
  fragment measured after it is too wide as well, and every later space becomes a
  linefeed.
\<close>

lemma wrap_after_wide_line_breaks_every_space:
  "step2_wrap monoWidth 5 (bufferEvent (bytes ''xxxxxxxx a b c''))
     = Inr ((bufferEvent (bytes ''xxxxxxxx'' @ [10] @ bytes ''a'' @ [10] @ bytes ''b'' @ [10]
               @ bytes ''c''))\<lparr>BufDirty := True\<rparr>)"
  by (simp add: step2_wrap_def bufferEvent_def bytes_def upt_rec slice_def monoWidth_def
        MarkBufferModified_def)

text \<open>
  C2. Step 2 receives its own output and modifies it again. The buffer is \<^verbatim>\<open>"aa bb"\<close>,
  a carriage return, a space and \<^verbatim>\<open>"ccccccc"\<close>, the width 5. The first pass breaks at
  the space after the carriage return, at index 6. In the second pass steps 0 and 1
  leave that linefeed alone, since it follows a carriage return, so step 2 is given
  exactly what it returned. There \<open>nl\<close> moves to the linefeed, the line \<^verbatim>\<open>"ccccccc"\<close> is
  still too wide, and \<open>spc\<close> still points at the space at index 2 of the line before,
  which fitted and is now broken.
\<close>

theorem pass_second_run_modifies:
  "WrapInputtextMultiline (sampleHost 5) sampleEditor
       (bufferEvent (bytes ''aa bb'' @ [13] @ bytes '' ccccccc''))
     = Inr ((bufferEvent (bytes ''aa bb'' @ [13, 10] @ bytes ''ccccccc''))\<lparr>BufDirty := True\<rparr>, 0)
   \<and> normalize_breaks
       ((bufferEvent (bytes ''aa bb'' @ [13, 10] @ bytes ''ccccccc''))\<lparr>BufDirty := True\<rparr>)
     = Inr ((bufferEvent (bytes ''aa bb'' @ [13, 10] @ bytes ''ccccccc''))\<lparr>BufDirty := True\<rparr>)
   \<and> WrapInputtextMultiline (sampleHost 5) sampleEditor
       ((bufferEvent (bytes ''aa bb'' @ [13, 10] @ bytes ''ccccccc''))\<lparr>BufDirty := True\<rparr>)
     = Inr ((bufferEvent (bytes ''aa'' @ [10] @ bytes ''bb'' @ [13, 10] @ bytes ''ccccccc''))
              \<lparr>BufDirty := True\<rparr>, 0)"
proof -
  have n1: "normalize_breaks (bufferEvent (bytes ''aa bb'' @ [13] @ bytes '' ccccccc''))
      = Inr ((bufferEvent (bytes ''aa bb'' @ [13] @ bytes '' ccccccc''))\<lparr>BufDirty := True\<rparr>)"
    by (simp add: normalize_breaks_zap bufferEvent_def bytes_def
          ReplaceAll_pivot_Cons2 ReplaceAll_pivot_single)
  have w1: "step2_wrap monoWidth 5
        ((bufferEvent (bytes ''aa bb'' @ [13] @ bytes '' ccccccc''))\<lparr>BufDirty := True\<rparr>)
      = Inr ((bufferEvent (bytes ''aa bb'' @ [13, 10] @ bytes ''ccccccc''))\<lparr>BufDirty := True\<rparr>)"
    by (simp add: step2_wrap_def bufferEvent_def bytes_def upt_rec slice_def monoWidth_def
          MarkBufferModified_def)
  have n2: "normalize_breaks
        ((bufferEvent (bytes ''aa bb'' @ [13, 10] @ bytes ''ccccccc''))\<lparr>BufDirty := True\<rparr>)
      = Inr ((bufferEvent (bytes ''aa bb'' @ [13, 10] @ bytes ''ccccccc''))\<lparr>BufDirty := True\<rparr>)"
    by (simp add: normalize_breaks_zap bufferEvent_def bytes_def
          ReplaceAll_pivot_Cons2 ReplaceAll_pivot_single)
  have w2: "step2_wrap monoWidth 5
        ((bufferEvent (bytes ''aa bb'' @ [13, 10] @ bytes ''ccccccc''))\<lparr>BufDirty := True\<rparr>)
      = Inr ((bufferEvent (bytes ''aa'' @ [10] @ bytes ''bb'' @ [13, 10] @ bytes ''ccccccc''))
              \<lparr>BufDirty := True\<rparr>)"
    by (simp add: step2_wrap_def bufferEvent_def bytes_def upt_rec slice_def monoWidth_def
          MarkBufferModified_def)
  show ?thesis
    by (simp only: Always_pass Always_pass_dirty sampleHost_measure sampleHost_width n1 n2 w1 w2
          sum.case simp_thms)
qed

text \<open>The same with the measure \<open>termWidth\<close> and 42 units available.\<close>

lemma second_pass_modifies_termWidth:
  "WrapInputtextMultiline (termHost 42) sampleEditor
       (bufferEvent (bytes ''aa bb'' @ [13] @ bytes '' ccccccc''))
     = Inr ((bufferEvent (bytes ''aa bb'' @ [13, 10] @ bytes ''ccccccc''))\<lparr>BufDirty := True\<rparr>, 0)
   \<and> WrapInputtextMultiline (termHost 42) sampleEditor
       ((bufferEvent (bytes ''aa bb'' @ [13, 10] @ bytes ''ccccccc''))\<lparr>BufDirty := True\<rparr>)
     = Inr ((bufferEvent (bytes ''aa'' @ [10] @ bytes ''bb'' @ [13, 10] @ bytes ''ccccccc''))
              \<lparr>BufDirty := True\<rparr>, 0)"
proof -
  have n1: "normalize_breaks (bufferEvent (bytes ''aa bb'' @ [13] @ bytes '' ccccccc''))
      = Inr ((bufferEvent (bytes ''aa bb'' @ [13] @ bytes '' ccccccc''))\<lparr>BufDirty := True\<rparr>)"
    by (simp add: normalize_breaks_zap bufferEvent_def bytes_def
          ReplaceAll_pivot_Cons2 ReplaceAll_pivot_single)
  have w1: "step2_wrap termWidth 42
        ((bufferEvent (bytes ''aa bb'' @ [13] @ bytes '' ccccccc''))\<lparr>BufDirty := True\<rparr>)
      = Inr ((bufferEvent (bytes ''aa bb'' @ [13, 10] @ bytes ''ccccccc''))\<lparr>BufDirty := True\<rparr>)"
    by (simp add: step2_wrap_def bufferEvent_def bytes_def upt_rec slice_def termWidth_def
          MarkBufferModified_def)
  have n2: "normalize_breaks
        ((bufferEvent (bytes ''aa bb'' @ [13, 10] @ bytes ''ccccccc''))\<lparr>BufDirty := True\<rparr>)
      = Inr ((bufferEvent (bytes ''aa bb'' @ [13, 10] @ bytes ''ccccccc''))\<lparr>BufDirty := True\<rparr>)"
    by (simp add: normalize_breaks_zap bufferEvent_def bytes_def
          ReplaceAll_pivot_Cons2 ReplaceAll_pivot_single)
  have w2: "step2_wrap termWidth 42
        ((bufferEvent (bytes ''aa bb'' @ [13, 10] @ bytes ''ccccccc''))\<lparr>BufDirty := True\<rparr>)
      = Inr ((bufferEvent (bytes ''aa'' @ [10] @ bytes ''bb'' @ [13, 10] @ bytes ''ccccccc''))
              \<lparr>BufDirty := True\<rparr>)"
    by (simp add: step2_wrap_def bufferEvent_def bytes_def upt_rec slice_def termWidth_def
          MarkBufferModified_def)
  show ?thesis
    by (simp only: Always_pass Always_pass_dirty termHost_measure termHost_width n1 n2 w1 w2
          sum.case simp_thms)
qed

text \<open>
  Step 2 alone, run on its own output, also modifies a buffer without a carriage
  return; there the callback as a whole does not, by \<open>pass_twice_fixed_point\<close>, since
  step 1 first takes the break of the first run back.
\<close>

lemma wrap_second_run_modifies:
  "step2_wrap monoWidth 5 (bufferEvent (bytes ''a b cccccccc''))
     = Inr ((bufferEvent (bytes ''a b'' @ [10] @ bytes ''cccccccc''))\<lparr>BufDirty := True\<rparr>)
   \<and> step2_wrap monoWidth 5 (bufferEvent (bytes ''a b'' @ [10] @ bytes ''cccccccc''))
     = Inr ((bufferEvent (bytes ''a'' @ [10] @ bytes ''b'' @ [10] @ bytes ''cccccccc''))
              \<lparr>BufDirty := True\<rparr>)"
  by (simp add: step2_wrap_def bufferEvent_def bytes_def upt_rec slice_def monoWidth_def
        MarkBufferModified_def)

section \<open>The entry filter\<close>

text \<open>
  C9. On a character event the callback commits the pivot \<^verbatim>\<open>U+07FF\<close> in place of a
  linefeed and every other character as it came, and touches nothing else: the buffer
  and its modification flag stay as they were. The committed character is therefore
  the pivot exactly when the incoming one is a linefeed or is the pivot itself.
\<close>

theorem entry_filter_commits:
  "EventFlag data = InputTextFlagsCallbackCharFilter \<Longrightarrow>
   WrapInputtextMultiline host e data =
     Inr (data\<lparr>EventChar := (if EventChar data = 10 then 0x07FF else EventChar data)\<rparr>, 0)
   \<and> ((if EventChar data = 10 then 0x07FF else EventChar data) = 0x07FF
        \<longleftrightarrow> EventChar data = 10 \<or> EventChar data = 0x07FF)"
  by (simp add: WrapInputtextMultiline_def SetEventChar_def)

theorem entry_filter_commits_witness:
  "WrapInputtextMultiline (sampleHost 5) sampleEditor (charEvent 10 (bytes ''ab''))
     = Inr (charEvent 0x07FF (bytes ''ab''), 0)
   \<and> WrapInputtextMultiline (sampleHost 5) sampleEditor (charEvent 0x61 (bytes ''ab''))
     = Inr (charEvent 0x61 (bytes ''ab''), 0)"
  using entry_filter_commits [of "charEvent 10 (bytes ''ab'')" "sampleHost 5" sampleEditor]
    entry_filter_commits [of "charEvent 0x61 (bytes ''ab'')" "sampleHost 5" sampleEditor]
  by (simp add: charEvent_def)

text \<open>
  The incoming character \<^verbatim>\<open>U+07FF\<close> is no linefeed, and the pivot is what is committed:
  "the pivot if and only if the input is a linefeed" fails there.
\<close>

theorem entry_filter_pivot_input_counterexample:
  "WrapInputtextMultiline (sampleHost 5) sampleEditor (charEvent 0x07FF (bytes ''ab''))
     = Inr (charEvent 0x07FF (bytes ''ab''), 0)
   \<and> EventChar (charEvent 0x07FF (bytes ''ab'')) = 0x07FF
   \<and> EventChar (charEvent 0x07FF (bytes ''ab'')) \<noteq> 10"
  by (simp add: WrapInputtextMultiline_def charEvent_def)

section \<open>The word-wrap flag\<close>

lemma Widget_wordwrap_update: "Widget (e\<lparr>wordwrap := on\<rparr>) = Widget e"
  by (simp add: Widget_def)

text \<open>
  C10. The word-wrap flag is stored and read back and nothing else: the multi-line
  callback (entry filter, normaliser and wrapper) returns the same data and the same
  modification flag whatever the flag is, and the widget built is the same.
\<close>

theorem wordwrap_flag_ignored:
  "WrapInputtextMultiline host (SetWordwrap e on) data = WrapInputtextMultiline host e data
   \<and> Widget (SetWordwrap e on) = Widget e
   \<and> Wordrap (SetWordwrap e on) = on"
  unfolding WrapInputtextMultiline_def SetWordwrap_def Wordrap_def Widget_wordwrap_update
  by simp

section \<open>The single-line callback\<close>

text \<open>
  C4. The single-line widget carries no callback flag, so no event of the toolkit
  reaches its closure: an activation leaves the editor as it was, with the selection it
  had, whether or not a callback is registered. Nothing is stored, nothing is called and
  nothing panics.
\<close>

theorem single_line_event_not_delivered:
  "\<not> multiline e \<Longrightarrow> HostEvent call host e data = (e, Inr (data, 0))"
  by (simp add: HostEvent_def Widget_def WidgetFlags_def)

theorem single_line_event_not_delivered_witness:
  "HostEvent callUnit (sampleHost 5) (NewTextEditor 200 20 None) (selectionEvent 2 5)
     = (NewTextEditor 200 20 None, Inr (selectionEvent 2 5, 0))
   \<and> selStart (NewTextEditor 200 20 (None :: unit option)) = 0
   \<and> selEnd (NewTextEditor 200 20 (None :: unit option)) = 0
   \<and> SelectionStart (selectionEvent 2 5) = 2
   \<and> SelectionEnd (selectionEvent 2 5) = 5"
proof -
  have h: "\<not> multiline (NewTextEditor 200 20 (None :: unit option))"
    by (simp add: NewTextEditor_def)
  from single_line_event_not_delivered [OF h, of callUnit "sampleHost 5" "selectionEvent 2 5"]
  show ?thesis by (simp add: NewTextEditor_def selectionEvent_def)
qed

text \<open>The multi-line widget does receive its two events.\<close>

lemma multi_line_event_delivered:
  "multiline e \<Longrightarrow>
   EventFlag data = InputTextFlagsCallbackAlways \<or> EventFlag data = InputTextFlagsCallbackCharFilter \<Longrightarrow>
   HostEvent call host e data = (e, WrapInputtextMultiline host e data)"
  by (auto simp add: HostEvent_def Widget_def WidgetFlags_def WidgetCallback_def)

text \<open>
  The closure itself, were it called on an activation, stores the selection and then
  calls the callback, which panics when none is registered.
\<close>

lemma activation_without_callback_panics:
  "EventFlag data = InputTextFlagsCallbackAlways \<Longrightarrow> onActivate e = None \<Longrightarrow>
   InputTextCallback call e data =
     (e\<lparr>selStart := SelectionStart data, selEnd := SelectionEnd data\<rparr>, Inl NilDereference)"
  by (simp add: InputTextCallback_def)

lemma activation_with_callback:
  "EventFlag data = InputTextFlagsCallbackAlways \<Longrightarrow> onActivate e = Some cb \<Longrightarrow>
   InputTextCallback call e data =
     (call cb (e\<lparr>selStart := SelectionStart data, selEnd := SelectionEnd data\<rparr>), Inr 0)"
  by (simp add: InputTextCallback_def)

end
